theory Spec2Isabelle
  imports Main "HOL-Library.Sublist"
begin

section \<open>Text and the processor interface\<close>

text \<open>
  A Python \<open>str\<close> is a sequence of Unicode code points; a code point is a natural number.
  ASCII text is written as an Isabelle string and converted with \<open>ustr\<close>.
\<close>

type_synonym ustring = "nat list"

definition ustr :: "string \<Rightarrow> ustring" where
  "ustr s = map of_char s"

text \<open>
  \<open>ProcessorInput\<close> is either a raw text or a record that carries a \<open>text\<close> field
  (beside flags of earlier stages); \<open>ProcessorOutput\<close> is the returned dictionary:
  the text and one boolean flag under a stage-specific key.
\<close>

datatype ProcessorInput =
  RawText ustring
| TextRecord ustring "(string \<times> bool) list"

record ProcessorOutput =
  "text" :: ustring
  flag_name :: string
  flag :: bool

text \<open>
  Modelled from the spec: \<open>BaseProcessor._extract_text\<close> lives in
  \<open>amharic_text_processor.base\<close>, which is not among the sources. The spec's rule
  is: if the input carries a \<open>text\<close> field, use it; otherwise the whole input is the text.
\<close>

fun extract_text :: "ProcessorInput \<Rightarrow> ustring" where
  "extract_text (RawText s) = s"
| "extract_text (TextRecord s others) = s"

text \<open>
  \<open>str.translate\<close> with a table built by \<open>str.maketrans\<close> from a dictionary of
  single characters: every character that is a key is replaced by its value, any other
  character is kept.
\<close>

definition translate :: "(nat \<times> nat) list \<Rightarrow> ustring \<Rightarrow> ustring" where
  "translate tbl s = map (\<lambda>c. case map_of tbl c of Some r \<Rightarrow> r | None \<Rightarrow> c) s"

section \<open>The character classes of the regular expressions\<close>

text \<open>
  In a \<open>str\<close> pattern \<open>\d\<close> matches every Unicode decimal digit (general category Nd).
  These are runs of ten consecutive code points, listed here by their first code point
  (Unicode 14.0, the database of CPython 3.11), and the mathematical digits
  U+1D7CE..U+1D7FF.
\<close>

definition digit_blocks :: "nat list" where
  "digit_blocks =
    [0x30, 0x660, 0x6F0, 0x7C0, 0x966, 0x9E6, 0xA66, 0xAE6, 0xB66, 0xBE6, 0xC66, 0xCE6,
     0xD66, 0xDE6, 0xE50, 0xED0, 0xF20, 0x1040, 0x1090, 0x17E0, 0x1810, 0x1946, 0x19D0,
     0x1A80, 0x1A90, 0x1B50, 0x1BB0, 0x1C40, 0x1C50, 0xA620, 0xA8D0, 0xA900, 0xA9D0,
     0xA9F0, 0xAA50, 0xABF0, 0xFF10, 0x104A0, 0x10D30, 0x11066, 0x110F0, 0x11136,
     0x111D0, 0x112F0, 0x11450, 0x114D0, 0x11650, 0x116C0, 0x11730, 0x118E0, 0x11950,
     0x11C50, 0x11D50, 0x11DA0, 0x16A60, 0x16AC0, 0x16B50, 0x1E140, 0x1E2F0, 0x1E950,
     0x1FBF0]"

definition is_digit :: "nat \<Rightarrow> bool" where
  "is_digit c \<longleftrightarrow>
     list_ex (\<lambda>b. b \<le> c \<and> c < b + 10) digit_blocks \<or> (0x1D7CE \<le> c \<and> c \<le> 0x1D7FF)"

text \<open>
  \<open>\s\<close> and \<open>str.strip()\<close> use the same class, the characters for which
  \<open>str.isspace\<close> holds.
\<close>

definition is_space :: "nat \<Rightarrow> bool" where
  "is_space c \<longleftrightarrow>
     (0x9 \<le> c \<and> c \<le> 0xD) \<or> (0x1C \<le> c \<and> c \<le> 0x20) \<or> c = 0x85 \<or> c = 0xA0 \<or>
     c = 0x1680 \<or> (0x2000 \<le> c \<and> c \<le> 0x200A) \<or> c = 0x2028 \<or> c = 0x2029 \<or>
     c = 0x202F \<or> c = 0x205F \<or> c = 0x3000"

section \<open>PunctuationNormalizer\<close>

definition PUNCT_TRANSLATION :: "(nat \<times> nat) list" where
  "PUNCT_TRANSLATION =
    [(0x201C, 0x22), (0x201D, 0x22), (0x2018, 0x27), (0x2019, 0x27), (0xFF0C, 0x2C),
     (0x3002, 0x2E), (0xFF01, 0x21), (0xFF1F, 0x3F), (0x3001, 0x2C), (0xFF1B, 0x3B),
     (0xFF1A, 0x3A)]"

text \<open>\<open>str(n)\<close> for a list length: the decimal digits of \<open>n\<close>.\<close>

fun str_nat :: "nat \<Rightarrow> ustring" where
  "str_nat n = (if n < 10 then [48 + n] else str_nat (n div 10) @ [48 + n mod 10])"

declare str_nat.simps [simp del]

text \<open>The placeholder \<open>f"__DECIMAL_{len(decimals)}__"\<close>.\<close>

definition token :: "nat \<Rightarrow> ustring" where
  "token n = ustr ''__DECIMAL_'' @ str_nat n @ ustr ''__''"

text \<open>
  One attempt of \<open>\d+\.\d+\<close> at the start of \<open>s\<close>: the longest run of digits, a full
  stop, the longest run of digits. (Giving back digits of the first run cannot help, the
  character after a shorter run is a digit.) The result is the matched text and the rest.
\<close>

definition match_decimal :: "ustring \<Rightarrow> (ustring \<times> ustring) option" where
  "match_decimal s =
     (let whole = takeWhile is_digit s; r = dropWhile is_digit s in
      if whole = [] then None
      else case r of
        [] \<Rightarrow> None
      | c # r' \<Rightarrow>
          let frac = takeWhile is_digit r' in
          if c = 0x2E \<and> frac \<noteq> [] then Some (whole @ [c] @ frac, dropWhile is_digit r')
          else None)"

text \<open>
  \<open>re.sub(r"\d+\.\d+", _capture_decimal, text)\<close>: the matches are found from left to
  right, each one is replaced by the next token and appended, with its token, to the list
  \<open>decimals\<close>, which the callback mutates; the list is passed along and returned.
\<close>

function protect_decimals ::
  "(ustring \<times> ustring) list \<Rightarrow> ustring \<Rightarrow> ustring \<times> (ustring \<times> ustring) list" where
  "protect_decimals decimals [] = ([], decimals)"
| "protect_decimals decimals (c # cs) =
     (case match_decimal (c # cs) of
        Some (m, rest) \<Rightarrow>
          (let tok = token (length decimals);
               (out, decimals') = protect_decimals (decimals @ [(tok, m)]) rest
           in (tok @ out, decimals'))
      | None \<Rightarrow>
          (let (out, decimals') = protect_decimals decimals cs
           in (c # out, decimals')))"
  by pat_completeness auto
termination
proof (relation "measure (\<lambda>(decimals, s). length s)", goal_cases)
  case 1
  show ?case by simp
next
  case (2 decimals c cs)
  show ?case by simp
next
  case (3 decimals c cs x m rest tok)
  have whole: "length (dropWhile is_digit (c # cs)) \<le> length (c # cs)"
    by (rule length_dropWhile_le)
  from 3 obtain d r' where r': "dropWhile is_digit (c # cs) = d # r'"
    and rest: "rest = dropWhile is_digit r'"
    by (auto simp: match_decimal_def Let_def split: if_splits list.splits)
  have "length (dropWhile is_digit r') \<le> length r'"
    by (rule length_dropWhile_le)
  with whole r' rest show ?case by simp
qed

text \<open>The class \<open>punct_all\<close>: \<open>[?!.,;:]\<close> and the Ethiopic marks U+1362..U+1368.\<close>

definition punct_all :: "nat list" where
  "punct_all =
    [0x3F, 0x21, 0x2E, 0x2C, 0x3B, 0x3A, 0x1362, 0x1363, 0x1364, 0x1365, 0x1366, 0x1367,
     0x1368]"

definition is_punct :: "nat \<Rightarrow> bool" where
  "is_punct c \<longleftrightarrow> c \<in> set punct_all"

text \<open>
  \<open>re.sub(rf"({punct_all}){{2,}}", r"\1", normalized)\<close>: a match is a longest run of
  two or more marks. The group is inside the repetition, so after the match it holds the
  text of its last iteration, and \<open>\1\<close> is the last mark of the run.
\<close>

function collapse_repeats :: "ustring \<Rightarrow> ustring" where
  "collapse_repeats [] = []"
| "collapse_repeats (c # cs) =
     (if is_punct c \<and> takeWhile is_punct cs \<noteq> []
      then last (takeWhile is_punct cs) # collapse_repeats (dropWhile is_punct cs)
      else c # collapse_repeats cs)"
  by pat_completeness auto
termination
  by (relation "measure length") (simp_all add: length_dropWhile_le less_Suc_eq_le)

text \<open>
  \<open>str.replace(old, new)\<close>: the occurrences of \<open>old\<close> are found from left to right
  without overlap. An empty \<open>old\<close> matches before every character and at the end.
\<close>

fun replace_from :: "ustring \<Rightarrow> ustring \<Rightarrow> ustring \<Rightarrow> ustring" where
  "replace_from old new [] = []"
| "replace_from old new (c # cs) =
     (if old \<noteq> [] \<and> prefix old (c # cs)
      then new @ replace_from old new (drop (length old) (c # cs))
      else c # replace_from old new cs)"

definition str_replace :: "ustring \<Rightarrow> ustring \<Rightarrow> ustring \<Rightarrow> ustring" where
  "str_replace old new s =
     (if old = [] then new @ concat (map (\<lambda>c. c # new) s) else replace_from old new s)"

text \<open>The loop \<open>for token, value in decimals: normalized = normalized.replace(token, value)\<close>.\<close>

fun restore_decimals :: "(ustring \<times> ustring) list \<Rightarrow> ustring \<Rightarrow> ustring" where
  "restore_decimals [] normalized = normalized"
| "restore_decimals ((tok, val) # decimals) normalized =
     restore_decimals decimals (str_replace tok val normalized)"

text \<open>\<open>re.sub(r"\s+", " ", s)\<close> and \<open>s.strip()\<close>.\<close>

function collapse_spaces :: "ustring \<Rightarrow> ustring" where
  "collapse_spaces [] = []"
| "collapse_spaces (c # cs) =
     (if is_space c then 0x20 # collapse_spaces (dropWhile is_space cs)
      else c # collapse_spaces cs)"
  by pat_completeness auto
termination
  by (relation "measure length") (simp_all add: length_dropWhile_le less_Suc_eq_le)

definition strip :: "ustring \<Rightarrow> ustring" where
  "strip s = rev (dropWhile is_space (rev (dropWhile is_space s)))"

definition PunctuationNormalizer_apply :: "ProcessorInput \<Rightarrow> ProcessorOutput" where
  "PunctuationNormalizer_apply data =
     (let txt = extract_text data;
          (protected, decimals) = protect_decimals [] txt;
          normalized = translate PUNCT_TRANSLATION protected;
          normalized = collapse_repeats normalized;
          normalized = restore_decimals decimals normalized;
          normalized = strip (collapse_spaces normalized)
      in \<lparr>text = normalized, flag_name = ''punctuation_normalized'',
          flag = (normalized \<noteq> txt)\<rparr>)"

section \<open>UnicodeNormalizer\<close>

datatype error = ValueError

record UnicodeNormalizer =
  form :: string
  strip_control :: bool

text \<open>\<open>__init__\<close> stores its two arguments and checks neither.\<close>

definition UnicodeNormalizer_init :: "string \<Rightarrow> bool \<Rightarrow> error + UnicodeNormalizer" where
  "UnicodeNormalizer_init frm strip_ctl = Inr \<lparr>form = frm, strip_control = strip_ctl\<rparr>"

text \<open>
  The Unicode character database of the standard library is a parameter: the
  normalisation of a text into each of the four forms, and the general category of a
  code point (a two-letter name such as \<open>Lu\<close>, \<open>Cc\<close> or \<open>Cf\<close>).
\<close>

record unicodedata =
  normal_form :: "string \<Rightarrow> ustring \<Rightarrow> ustring"
  category :: "nat \<Rightarrow> string"

text \<open>
  \<open>unicodedata.normalize(form, text)\<close> returns an empty text as it is, before it looks
  at the form; otherwise it accepts the forms NFC, NFKC, NFD and NFKD and raises
  \<open>ValueError\<close> ("invalid normalization form") for any other name.
\<close>

definition normalize :: "unicodedata \<Rightarrow> string \<Rightarrow> ustring \<Rightarrow> error + ustring" where
  "normalize ucd frm s =
     (if s = [] then Inr s
      else if frm \<in> set [''NFC'', ''NFKC'', ''NFD'', ''NFKD''] then Inr (normal_form ucd frm s)
      else Inl ValueError)"

definition UnicodeNormalizer_apply ::
  "unicodedata \<Rightarrow> UnicodeNormalizer \<Rightarrow> ProcessorInput \<Rightarrow> error + ProcessorOutput" where
  "UnicodeNormalizer_apply ucd self data =
     (let txt = extract_text data in
      case normalize ucd (form self) txt of
        Inl e \<Rightarrow> Inl e
      | Inr normalized \<Rightarrow>
          let normalized =
                (if strip_control self
                 then filter (\<lambda>ch. take 1 (category ucd ch) \<noteq> ''C'') normalized
                 else normalized)
          in Inr \<lparr>text = normalized, flag_name = ''unicode_normalized'',
                  flag = (normalized \<noteq> txt)\<rparr>)"

section \<open>CharacterRemapper\<close>

definition REMAP :: "(nat \<times> nat) list" where
  "REMAP =
    [(0x1220, 0x1230), (0x1221, 0x1231), (0x1222, 0x1232), (0x1223, 0x1233), (0x1224, 0x1234),
     (0x1225, 0x1235), (0x1226, 0x1236), (0x1227, 0x1237), (0x1210, 0x1200), (0x1211, 0x1201),
     (0x1212, 0x1202), (0x1213, 0x1200), (0x1214, 0x1204), (0x1215, 0x1205), (0x1216, 0x1206),
     (0x1203, 0x1200), (0x1280, 0x1200), (0x1281, 0x1201), (0x1282, 0x1202), (0x1283, 0x1200),
     (0x1284, 0x1204), (0x1285, 0x1205), (0x1286, 0x1206), (0x128A, 0x1202), (0x128B, 0x1200),
     (0x128C, 0x1204), (0x128D, 0x1205), (0x12BE, 0x1206), (0x1340, 0x1338), (0x1341, 0x1339),
     (0x1342, 0x133A), (0x1343, 0x133B), (0x1344, 0x133C), (0x1345, 0x133D), (0x1346, 0x133E),
     (0x1347, 0x133F), (0x12EF, 0x12EE), (0x12D0, 0x12A0), (0x12D1, 0x12A1), (0x12D2, 0x12A2),
     (0x12D3, 0x12A0), (0x12D4, 0x12A4), (0x12D5, 0x12A5), (0x12D6, 0x12A6), (0x130E, 0x1310),
     (0x12B0, 0x12AE), (0x124A, 0x1241), (0x12B5, 0x12A9), (0x12C9, 0x12CD)]"

text \<open>
  The twenty substitutions \<open>re.sub(r"(b[\<dots>])", "g", remapped)\<close>, in the order of the
  source, each as the base glyph \<open>b\<close> and the labialised glyph \<open>g\<close>. The class of the
  second character is the same in all of them: U+12CB and U+12A0.
\<close>

definition ligature_rules :: "(nat \<times> nat) list" where
  "ligature_rules =
    [(0x1209, 0x120F), (0x1219, 0x121F), (0x1271, 0x1277), (0x1229, 0x122F), (0x1231, 0x1237),
     (0x1239, 0x123F), (0x1241, 0x124B), (0x1261, 0x1267), (0x1279, 0x127F), (0x1201, 0x128B),
     (0x1291, 0x1297), (0x1299, 0x129F), (0x12A9, 0x12B3), (0x12D9, 0x12DF), (0x1309, 0x1313),
     (0x12F0, 0x12F7), (0x1321, 0x1327), (0x1329, 0x132F), (0x1339, 0x133F), (0x1349, 0x134F)]"

definition is_trigger :: "nat \<Rightarrow> bool" where
  "is_trigger c \<longleftrightarrow> c = 0x12CB \<or> c = 0x12A0"

text \<open>One \<open>re.sub\<close>: the matches of the two-character pattern, from left to right.\<close>

fun sub_ligature :: "nat \<Rightarrow> nat \<Rightarrow> ustring \<Rightarrow> ustring" where
  "sub_ligature b g (x # y # rest) =
     (if x = b \<and> is_trigger y then g # sub_ligature b g rest
      else x # sub_ligature b g (y # rest))"
| "sub_ligature b g s = s"

definition apply_ligatures :: "ustring \<Rightarrow> ustring" where
  "apply_ligatures s = fold (\<lambda>(b, g) remapped. sub_ligature b g remapped) ligature_rules s"

definition CharacterRemapper_apply :: "ProcessorInput \<Rightarrow> ProcessorOutput" where
  "CharacterRemapper_apply data =
     (let txt = extract_text data;
          remapped = translate REMAP txt;
          remapped = apply_ligatures remapped
      in \<lparr>text = remapped, flag_name = ''characters_remapped'',
          flag = (remapped \<noteq> txt)\<rparr>)"

section \<open>A fragment of the character database\<close>

text \<open>
  The general categories of the ASCII code points; every normal form of an ASCII text is
  the text itself. Beyond ASCII this fragment answers \<open>Cn\<close>; it serves to evaluate the
  model on ASCII texts.
\<close>

definition ascii_category :: "nat \<Rightarrow> string" where
  "ascii_category c =
     (if c < 0x20 \<or> c = 0x7F then ''Cc''
      else if c = 0x20 then ''Zs''
      else if 0x30 \<le> c \<and> c \<le> 0x39 then ''Nd''
      else if 0x41 \<le> c \<and> c \<le> 0x5A then ''Lu''
      else if 0x61 \<le> c \<and> c \<le> 0x7A then ''Ll''
      else if c \<in> set [0x2B, 0x3C, 0x3D, 0x3E, 0x7C, 0x7E] then ''Sm''
      else if c \<in> set [0x28, 0x5B, 0x7B] then ''Ps''
      else if c \<in> set [0x29, 0x5D, 0x7D] then ''Pe''
      else if c \<in> set [0x5E, 0x60] then ''Sk''
      else if c = 0x24 then ''Sc''
      else if c = 0x2D then ''Pd''
      else if c = 0x5F then ''Pc''
      else if c < 0x80 then ''Po''
      else ''Cn'')"

definition ascii_ucd :: unicodedata where
  "ascii_ucd = \<lparr>normal_form = (\<lambda>frm s. s), category = ascii_category\<rparr>"




section \<open>Notions used in the proofs\<close>

text \<open>
  The list \<open>decimals\<close> is well formed when its entry \<open>i\<close> pairs the placeholder number
  \<open>i\<close> with a text that contains a full stop and no underscore.
\<close>

definition well_formed :: "(ustring \<times> ustring) list \<Rightarrow> bool" where
  "well_formed ds \<longleftrightarrow>
     (\<forall>i < length ds. fst (ds ! i) = token i \<and> 0x2E \<in> set (snd (ds ! i)) \<and>
        0x5F \<notin> set (snd (ds ! i)))"

text \<open>
  Two characters stand next to each other in a text, the first with the property \<open>P\<close> and
  the second with the property \<open>Q\<close>.
\<close>

definition adjacent :: "(nat \<Rightarrow> bool) \<Rightarrow> (nat \<Rightarrow> bool) \<Rightarrow> ustring \<Rightarrow> bool" where
  "adjacent P Q s \<longleftrightarrow> (\<exists>a b. P a \<and> Q b \<and> sublist [a, b] s)"






section \<open>Evaluation of the character classes\<close>

lemma is_digit_low: "c < 0x660 \<Longrightarrow> is_digit c \<longleftrightarrow> 0x30 \<le> c \<and> c \<le> 0x39"
  unfolding is_digit_def digit_blocks_def by (simp) arith

lemma is_punct_iff:
  "is_punct c \<longleftrightarrow> c = 0x3F \<or> c = 0x21 \<or> c = 0x2E \<or> c = 0x2C \<or> c = 0x3B \<or> c = 0x3A \<or>
     (0x1362 \<le> c \<and> c \<le> 0x1368)"
  unfolding is_punct_def punct_all_def by (simp) arith

lemmas punct_eval = ustr_def match_decimal_def is_digit_low token_def str_nat.simps
  PunctuationNormalizer_apply_def translate_def PUNCT_TRANSLATION_def is_punct_iff
  str_replace_def strip_def is_space_def Let_def

lemmas remap_eval = CharacterRemapper_apply_def translate_def REMAP_def apply_ligatures_def
  ligature_rules_def is_trigger_def Let_def

section \<open>Collapsing repeated punctuation\<close>

lemma collapse_repeats_append:
  "pre = [] \<or> \<not> is_punct (last pre) \<Longrightarrow>
   collapse_repeats (pre @ s) = collapse_repeats pre @ collapse_repeats s"
proof (induction pre rule: collapse_repeats.induct)
  case 1
  show ?case by simp
next
  case (2 c cs)
  show ?case
  proof (cases "cs = []")
    case True
    with 2(3) show ?thesis by simp
  next
    case False
    with 2(3) have lst: "\<not> is_punct (last cs)" "last cs \<in> set cs" by auto
    have tw: "takeWhile is_punct (cs @ s) = takeWhile is_punct cs"
      using lst by (simp add: takeWhile_append1)
    have dw: "dropWhile is_punct (cs @ s) = dropWhile is_punct cs @ s"
      using lst by (simp add: dropWhile_append1)
    have dne: "dropWhile is_punct cs \<noteq> []"
      using lst by (metis dropWhile_eq_Nil_conv)
    have dl: "last (dropWhile is_punct cs) = last cs"
      using dne by (metis last_appendR takeWhile_dropWhile_id)
    show ?thesis
    proof (cases "is_punct c \<and> takeWhile is_punct cs \<noteq> []")
      case True
      with 2(1) dne dl lst have
        "collapse_repeats (dropWhile is_punct cs @ s) =
         collapse_repeats (dropWhile is_punct cs) @ collapse_repeats s" by simp
      with True tw dw show ?thesis by simp
    next
      case F2: False
      with 2(2) False lst have "collapse_repeats (cs @ s) = collapse_repeats cs @ collapse_repeats s"
        by simp
      with F2 tw show ?thesis by auto
    qed
  qed
qed

lemma collapse_repeats_run:
  assumes "\<forall>c \<in> set run. is_punct c" "2 \<le> length run" "post = [] \<or> \<not> is_punct (hd post)"
  shows "collapse_repeats (run @ post) = last run # collapse_repeats post"
proof -
  from assms(2) obtain c r where run: "run = c # r" "r \<noteq> []"
    by (cases run) (auto simp: Suc_le_eq)
  have tw: "takeWhile is_punct (r @ post) = r"
    using assms(1,3) run by (cases post) (auto simp: takeWhile_append2 takeWhile_eq_all_conv)
  have dw: "dropWhile is_punct (r @ post) = post"
    using assms(1,3) run by (cases post) (auto simp: dropWhile_append2)
  show ?thesis using run tw dw assms(1) by simp
qed

text \<open>
  C1 (as amended). A run of two or more marks of the class \<open>punct_all\<close>, bounded on
  both sides by the ends of the text or by characters outside the class, is replaced by a
  single occurrence of the last mark of the run; the text before and the text after are
  collapsed on their own.
\<close>

theorem collapse_keeps_last_mark:
  assumes "\<forall>c \<in> set run. is_punct c" and "2 \<le> length run"
    and "pre = [] \<or> \<not> is_punct (last pre)" and "post = [] \<or> \<not> is_punct (hd post)"
  shows "collapse_repeats (pre @ run @ post) =
         collapse_repeats pre @ last run # collapse_repeats post"
  using collapse_repeats_append [OF assms(3)] collapse_repeats_run [OF assms(1,2,4)] by simp

text \<open>The run \<open>?!\<close> between \<open>So\<close> and \<open> yes\<close> becomes \<open>!\<close>.\<close>

theorem collapse_keeps_last_mark_witness:
  "list_all is_punct (ustr ''?!'') \<and> 2 \<le> length (ustr ''?!'') \<and>
   \<not> is_punct (last (ustr ''So'')) \<and> \<not> is_punct (hd (ustr '' yes'')) \<and>
   collapse_repeats (ustr ''So'' @ ustr ''?!'' @ ustr '' yes'') = ustr ''So! yes''"
proof -
  have a: "\<forall>c \<in> set (ustr ''?!''). is_punct c" by (simp add: ustr_def is_punct_iff)
  have b: "2 \<le> length (ustr ''?!'')" by (simp add: ustr_def)
  have c: "\<not> is_punct (last (ustr ''So''))" by (simp add: ustr_def is_punct_iff)
  have d: "\<not> is_punct (hd (ustr '' yes''))" by (simp add: ustr_def is_punct_iff)
  from collapse_keeps_last_mark [OF a b disjI2 [OF c] disjI2 [OF d]] a b c d
  show ?thesis by (simp add: ustr_def is_punct_iff list_all_iff)
qed

text \<open>
  C1 as stated fails: the stage turns \<open>?!\<close> into \<open>!\<close>, not into the first mark \<open>?\<close>.
\<close>

theorem first_mark_counterexample:
  "text (PunctuationNormalizer_apply (RawText (ustr ''?!''))) = ustr ''!'' \<and>
   text (PunctuationNormalizer_apply (RawText (ustr ''?!''))) \<noteq> ustr ''?''"
  by (simp add: punct_eval)

section \<open>The claims about single texts\<close>

text \<open>
  C2 (as amended). On \<open>It costs 8.5%%% today!!\<close> the stage returns
  \<open>It costs 8.5%%% today!\<close>: the decimal point is untouched and the repeated \<open>!\<close>
  is collapsed, but \<open>%\<close> is not a mark of the class \<open>punct_all\<close> and stays repeated.
\<close>

theorem percent_not_collapsed:
  "text (PunctuationNormalizer_apply (RawText (ustr ''It costs 8.5%%% today!!''))) =
   ustr ''It costs 8.5%%% today!''"
  by (simp add: punct_eval)

text \<open>
  C2 as stated fails: the result is not \<open>It costs 8.5% today!\<close>.
\<close>

theorem percent_counterexample:
  "text (PunctuationNormalizer_apply (RawText (ustr ''It costs 8.5%%% today!!''))) \<noteq>
   ustr ''It costs 8.5% today!''"
  by (simp add: punct_eval)

text \<open>
  C6 (as amended). The curly quotes and the full-width comma and full stop are replaced by
  their ASCII equivalents, and no space is inserted after the comma.
\<close>

theorem unify_no_space_inserted:
  \<open>text (PunctuationNormalizer_apply
      (RawText (ustr ''He said '' @ [0x201C] @ ustr ''hello'' @ [0x201D, 0xFF0C] @
                ustr ''friend'' @ [0x3002]))) =
   ustr ''He said "hello",friend.''\<close>
  by (simp add: punct_eval)

text \<open>
  C6 as stated fails: the result is not the text with a space after the comma.
\<close>

theorem unify_counterexample:
  \<open>text (PunctuationNormalizer_apply
      (RawText (ustr ''He said '' @ [0x201C] @ ustr ''hello'' @ [0x201D, 0xFF0C] @
                ustr ''friend'' @ [0x3002]))) \<noteq>
   ustr ''He said "hello", friend.''\<close>
  by (simp add: punct_eval)

text \<open>
  C4 (as amended). Constructing a \<open>UnicodeNormalizer\<close> always succeeds and stores the form
  as given; a form other than NFC, NFKC, NFD and NFKD is rejected only by \<open>apply\<close>, which
  raises \<open>ValueError\<close> on every non-empty text.
\<close>

theorem init_never_fails:
  "UnicodeNormalizer_init frm strip_ctl = Inr \<lparr>form = frm, strip_control = strip_ctl\<rparr> \<and>
   (frm \<notin> set [''NFC'', ''NFKC'', ''NFD'', ''NFKD''] \<and> extract_text data \<noteq> [] \<longrightarrow>
      UnicodeNormalizer_apply ucd \<lparr>form = frm, strip_control = strip_ctl\<rparr> data = Inl ValueError)"
  by (simp add: UnicodeNormalizer_init_def UnicodeNormalizer_apply_def normalize_def)

text \<open>
  The form \<open>NFX\<close> on the text \<open>abc\<close>.
\<close>

theorem init_never_fails_witness:
  "UnicodeNormalizer_init ''NFX'' True = Inr \<lparr>form = ''NFX'', strip_control = True\<rparr> \<and>
   ''NFX'' \<notin> set [''NFC'', ''NFKC'', ''NFD'', ''NFKD''] \<and>
   extract_text (RawText (ustr ''abc'')) \<noteq> [] \<and>
   UnicodeNormalizer_apply ascii_ucd \<lparr>form = ''NFX'', strip_control = True\<rparr>
     (RawText (ustr ''abc'')) = Inl ValueError"
  using init_never_fails [of "''NFX''" True "RawText (ustr ''abc'')" ascii_ucd]
  by (simp add: ustr_def)

text \<open>
  C4 as stated fails: construction with the form \<open>NFX\<close> succeeds, and the form is
  rejected later, by \<open>apply\<close>.
\<close>

theorem init_counterexample:
  "UnicodeNormalizer_init ''NFX'' True = Inr \<lparr>form = ''NFX'', strip_control = True\<rparr> \<and>
   UnicodeNormalizer_apply ascii_ucd \<lparr>form = ''NFX'', strip_control = True\<rparr>
     (RawText (ustr ''abc'')) = Inl ValueError"
  by (simp add: UnicodeNormalizer_init_def UnicodeNormalizer_apply_def normalize_def ustr_def)

section \<open>The flag and the control characters\<close>

text \<open>
  C7. In the record returned by each stage the flag is true exactly when the returned text
  differs from the extracted input text.
\<close>

theorem flag_is_text_inequality:
  "flag (PunctuationNormalizer_apply data) =
     (text (PunctuationNormalizer_apply data) \<noteq> extract_text data) \<and>
   flag (CharacterRemapper_apply data) =
     (text (CharacterRemapper_apply data) \<noteq> extract_text data) \<and>
   (UnicodeNormalizer_apply ucd self data = Inr out \<longrightarrow>
      flag out = (text out \<noteq> extract_text data))"
  by (auto simp: PunctuationNormalizer_apply_def CharacterRemapper_apply_def
      UnicodeNormalizer_apply_def Let_def split: prod.splits sum.splits)

text \<open>
  \<open>UnicodeNormalizer\<close> on a text with the control character U+0007.
\<close>

theorem flag_is_text_inequality_witness:
  "UnicodeNormalizer_apply ascii_ucd \<lparr>form = ''NFC'', strip_control = True\<rparr>
     (RawText (ustr ''a'' @ [0x7] @ ustr ''b'')) =
   Inr \<lparr>text = ustr ''ab'', flag_name = ''unicode_normalized'', flag = True\<rparr> \<and>
   flag \<lparr>text = ustr ''ab'', flag_name = ''unicode_normalized'', flag = True\<rparr> =
     (text \<lparr>text = ustr ''ab'', flag_name = ''unicode_normalized'', flag = True\<rparr> \<noteq>
      extract_text (RawText (ustr ''a'' @ [0x7] @ ustr ''b'')))"
proof -
  have a: "UnicodeNormalizer_apply ascii_ucd \<lparr>form = ''NFC'', strip_control = True\<rparr>
     (RawText (ustr ''a'' @ [0x7] @ ustr ''b'')) =
   Inr \<lparr>text = ustr ''ab'', flag_name = ''unicode_normalized'', flag = True\<rparr>"
    by (simp add: UnicodeNormalizer_apply_def normalize_def ascii_ucd_def ascii_category_def
        ustr_def)
  from flag_is_text_inequality [of "RawText (ustr ''a'' @ [0x7] @ ustr ''b'')" ascii_ucd
      "\<lparr>form = ''NFC'', strip_control = True\<rparr>"
      "\<lparr>text = ustr ''ab'', flag_name = ''unicode_normalized'', flag = True\<rparr>"] a
  show ?thesis by simp
qed

text \<open>
  C8. With \<open>strip_control\<close> set, no character of the returned text has a general
  category that starts with \<open>C\<close>.
\<close>

theorem no_control_characters:
  "strip_control self \<Longrightarrow> UnicodeNormalizer_apply ucd self data = Inr out \<Longrightarrow>
   ch \<in> set (text out) \<Longrightarrow> take 1 (category ucd ch) \<noteq> ''C''"
  by (auto simp: UnicodeNormalizer_apply_def Let_def split: sum.splits)

text \<open>
  The same text: U+0007 is removed, the letters stay.
\<close>

theorem no_control_characters_witness:
  "strip_control \<lparr>form = ''NFC'', strip_control = True\<rparr> \<and>
   UnicodeNormalizer_apply ascii_ucd \<lparr>form = ''NFC'', strip_control = True\<rparr>
     (RawText (ustr ''a'' @ [0x7] @ ustr ''b'')) =
   Inr \<lparr>text = ustr ''ab'', flag_name = ''unicode_normalized'', flag = True\<rparr> \<and>
   of_char CHR ''b'' \<in> set (text \<lparr>text = ustr ''ab'', flag_name = ''unicode_normalized'', flag = True\<rparr>) \<and>
   take 1 (category ascii_ucd (of_char CHR ''b'')) \<noteq> ''C''"
proof -
  have a: "UnicodeNormalizer_apply ascii_ucd \<lparr>form = ''NFC'', strip_control = True\<rparr>
     (RawText (ustr ''a'' @ [0x7] @ ustr ''b'')) =
   Inr \<lparr>text = ustr ''ab'', flag_name = ''unicode_normalized'', flag = True\<rparr>"
    by (simp add: UnicodeNormalizer_apply_def normalize_def ascii_ucd_def ascii_category_def
        ustr_def)
  have b: "strip_control \<lparr>form = ''NFC'', strip_control = True\<rparr>" by simp
  have c: "of_char CHR ''b'' \<in> set (text \<lparr>text = ustr ''ab'', flag_name = ''unicode_normalized'', flag = True\<rparr>)"
    by (simp add: ustr_def)
  from no_control_characters [OF b a c] a b c show ?thesis by simp
qed

section \<open>The remapping table and the ligature rules\<close>

lemma translate_REMAP_no_hwa: "0x128B \<notin> set (translate REMAP s)"
proof -
  have "(case map_of REMAP c of Some r \<Rightarrow> r | None \<Rightarrow> c) \<noteq> 0x128B" for c
  proof (cases "map_of REMAP c")
    case None
    then have "c \<noteq> 0x128B" by (auto simp: REMAP_def)
    with None show ?thesis by simp
  next
    case (Some r)
    then have "(c, r) \<in> set REMAP" by (rule map_of_SomeD)
    then have "r \<noteq> 0x128B" by (auto simp: REMAP_def)
    with Some show ?thesis by simp
  qed
  then show ?thesis by (auto simp: translate_def)
qed

text \<open>
  C9. The table maps U+128B to U+1200, while the ligature rule for U+1201 produces U+128B
  from both triggers. So the table pass turns every U+128B of its input into U+1200 and
  leaves none, and the stage applied to its own output on U+1201 U+12CB yields U+1200.
\<close>

theorem hwa_remapped_to_ha:
  "map_of REMAP 0x128B = Some 0x1200 \<and>
   text (CharacterRemapper_apply (RawText [0x1201, 0x12CB])) = [0x128B] \<and>
   text (CharacterRemapper_apply (RawText [0x1201, 0x12A0])) = [0x128B] \<and>
   0x128B \<notin> set (translate REMAP s) \<and>
   length (translate REMAP s) = length s \<and>
   (i < length s \<and> s ! i = 0x128B \<longrightarrow> translate REMAP s ! i = 0x1200) \<and>
   text (CharacterRemapper_apply
     (RawText (text (CharacterRemapper_apply (RawText [0x1201, 0x12CB]))))) = [0x1200]"
proof -
  have a: "map_of REMAP 0x128B = Some 0x1200" by (simp add: REMAP_def)
  have b: "text (CharacterRemapper_apply (RawText [0x1201, 0x12CB])) = [0x128B]"
    by (simp add: remap_eval)
  have c: "text (CharacterRemapper_apply (RawText [0x1201, 0x12A0])) = [0x128B]"
    by (simp add: remap_eval)
  have d: "text (CharacterRemapper_apply (RawText [0x128B])) = [0x1200]"
    by (simp add: remap_eval)
  have e: "i < length s \<and> s ! i = 0x128B \<longrightarrow> translate REMAP s ! i = 0x1200"
    using a by (simp add: translate_def)
  have f: "length (translate REMAP s) = length s" by (simp add: translate_def)
  from a b c d e f translate_REMAP_no_hwa [of s] show ?thesis by simp
qed

text \<open>The text U+12A0 U+128B, with the glyph at index 1.\<close>

theorem hwa_remapped_to_ha_witness:
  "(1::nat) < length [0x12A0, 0x128B :: nat] \<and> [0x12A0, 0x128B :: nat] ! 1 = 0x128B \<and>
   translate REMAP [0x12A0, 0x128B] ! 1 = 0x1200 \<and>
   0x128B \<notin> set (translate REMAP [0x12A0, 0x128B])"
  using hwa_remapped_to_ha [of "[0x12A0, 0x128B]" 1] by simp

text \<open>
  C10. There are twenty ligature rules, on twenty distinct base glyphs, and each of them
  fires on both triggers, U+12CB and U+12A0: the base glyph followed by either one becomes
  the labialised glyph of the rule.
\<close>

theorem ligature_both_triggers:
  "length ligature_rules = 20 \<and> distinct (map fst ligature_rules) \<and>
   ((b, g) \<in> set ligature_rules \<longrightarrow>
      text (CharacterRemapper_apply (RawText [b, 0x12CB])) = [g] \<and>
      text (CharacterRemapper_apply (RawText [b, 0x12A0])) = [g])"
proof -
  have a: "length ligature_rules = 20" by (simp add: ligature_rules_def)
  have b: "distinct (map fst ligature_rules)" by (simp add: ligature_rules_def)
  have c: "\<forall>(b, g) \<in> set ligature_rules.
      text (CharacterRemapper_apply (RawText [b, 0x12CB])) = [g] \<and>
      text (CharacterRemapper_apply (RawText [b, 0x12A0])) = [g]"
    by (simp add: remap_eval)
  from a b c show ?thesis by auto
qed

text \<open>The rule of the claim's example: U+1271 becomes U+1277.\<close>

theorem ligature_both_triggers_witness:
  "(0x1271, 0x1277) \<in> set ligature_rules \<and>
   text (CharacterRemapper_apply (RawText [0x1271, 0x12CB])) = [0x1277] \<and>
   text (CharacterRemapper_apply (RawText [0x1271, 0x12A0])) = [0x1277]"
proof -
  have a: "(0x1271, 0x1277) \<in> set ligature_rules" by (simp add: ligature_rules_def)
  from ligature_both_triggers [of "0x1271" "0x1277"] a show ?thesis by simp
qed

section \<open>Occurrences of a text after a replacement\<close>

lemma prefix_through_replace:
  "last old \<notin> set new \<Longrightarrow> \<not> set new \<subseteq> set old \<Longrightarrow>
   prefix old (p @ replace_from old new s) \<Longrightarrow> prefix old (p @ s)"
proof (induction old new s arbitrary: p rule: replace_from.induct)
  case (1 old new)
  then show ?case by simp
next
  case (2 old new c cs)
  show ?case
  proof (cases "old \<noteq> [] \<and> prefix old (c # cs)")
    case True
    let ?R = "replace_from old new (drop (length old) (c # cs))"
    from True "2.prems"(3) have pr: "prefix old (p @ new @ ?R)" by simp
    then consider "prefix old p" | us where "old = p @ us" "prefix us (new @ ?R)"
      by (auto simp: prefix_append)
    then show ?thesis
    proof cases
      case 1
      then show ?thesis by (simp add: prefix_append)
    next
      case b: 2
      from b(2) consider "prefix us new" | vs where "us = new @ vs"
        by (auto simp: prefix_append)
      then show ?thesis
      proof cases
        case 1
        show ?thesis
        proof (cases "us = []")
          case True
          with b(1) show ?thesis by simp
        next
          case False
          with b(1) have "last old = last us" by simp
          moreover from False have "last us \<in> set us" by simp
          moreover from 1 have "set us \<subseteq> set new" by (rule set_mono_prefix)
          ultimately show ?thesis using "2.prems"(1) by auto
        qed
      next
        case 2
        with b(1) have "set new \<subseteq> set old" by auto
        with "2.prems"(2) show ?thesis by simp
      qed
    qed
  next
    case False
    with "2.prems"(3) have "prefix old ((p @ [c]) @ replace_from old new cs)" by auto
    from "2.IH"(2) [OF False "2.prems"(1) "2.prems"(2) this] have "prefix old ((p @ [c]) @ cs)" .
    then show ?thesis by simp
  qed
qed

lemma replace_from_removes:
  "old \<noteq> [] \<Longrightarrow> hd old \<notin> set new \<Longrightarrow> last old \<notin> set new \<Longrightarrow> \<not> set new \<subseteq> set old \<Longrightarrow>
   \<not> sublist old (replace_from old new s)"
proof (induction old new s rule: replace_from.induct)
  case (1 old new)
  then show ?case by simp
next
  case (2 old new c cs)
  have hd_in: "hd old \<in> set old" using "2.prems"(1) by simp
  show ?case
  proof (cases "old \<noteq> [] \<and> prefix old (c # cs)")
    case True
    let ?R = "replace_from old new (drop (length old) (c # cs))"
    from "2.IH"(1) [OF True "2.prems"] have ih: "\<not> sublist old ?R" .
    have "\<not> sublist old (new @ ?R)"
    proof
      assume "sublist old (new @ ?R)"
      then have "sublist old new \<or> sublist old ?R \<or>
          (\<exists>xs1 xs2. old = xs1 @ xs2 \<and> suffix xs1 new \<and> prefix xs2 ?R)"
        by (simp only: sublist_append)
      then consider "sublist old new" | "sublist old ?R"
        | xs1 xs2 where "old = xs1 @ xs2" "suffix xs1 new" "prefix xs2 ?R"
        by blast
      then show False
      proof cases
        case 1
        then have "set old \<subseteq> set new" by (rule set_mono_sublist)
        with hd_in "2.prems"(2) show False by auto
      next
        case 2
        with ih show False by simp
      next
        case s: 3
        show False
        proof (cases "xs1 = []")
          case True
          with s have "prefix old ?R" by simp
          with ih show False by auto
        next
          case False
          with s(1) have "hd old = hd xs1" by simp
          moreover from False have "hd xs1 \<in> set xs1" by simp
          moreover from s(2) have "set xs1 \<subseteq> set new" by (rule set_mono_suffix)
          ultimately show False using "2.prems"(2) by auto
        qed
      qed
    qed
    with True show ?thesis by simp
  next
    case False
    from "2.IH"(2) [OF False "2.prems"] have ih: "\<not> sublist old (replace_from old new cs)" .
    have "\<not> prefix old (c # replace_from old new cs)"
    proof
      assume "prefix old (c # replace_from old new cs)"
      then have "prefix old ([c] @ replace_from old new cs)" by simp
      from prefix_through_replace [OF "2.prems"(3) "2.prems"(4) this] False "2.prems"(1) show False by simp
    qed
    with ih False show ?thesis by (auto simp: sublist_Cons_right)
  qed
qed

lemma sublist_through_replace:
  "hd t \<notin> set new \<Longrightarrow> last t \<notin> set new \<Longrightarrow> \<not> set new \<subseteq> set t \<Longrightarrow> t \<noteq> [] \<Longrightarrow>
   sublist t (p @ replace_from old new s) \<Longrightarrow> sublist t (p @ s)"
proof (induction old new s arbitrary: p rule: replace_from.induct)
  case (1 old new)
  then show ?case by simp
next
  case (2 old new c cs)
  have hd_in: "hd t \<in> set t" and last_in: "last t \<in> set t" using "2.prems"(4) by simp_all
  show ?case
  proof (cases "old \<noteq> [] \<and> prefix old (c # cs)")
    case True
    let ?d = "drop (length old) (c # cs)"
    let ?R = "replace_from old new ?d"
    have suf: "suffix ?d (c # cs)" by (rule suffix_drop)
    from True "2.prems"(5) have "sublist t ((p @ new) @ ?R)" by simp
    then have "sublist t (p @ new) \<or> sublist t ?R \<or>
        (\<exists>t1 t2. t = t1 @ t2 \<and> suffix t1 (p @ new) \<and> prefix t2 ?R)"
      by (simp only: sublist_append)
    then consider "sublist t (p @ new)" | "sublist t ?R"
      | t1 t2 where "t = t1 @ t2" "suffix t1 (p @ new)" "prefix t2 ?R"
      by blast
    then show ?thesis
    proof cases
      case 1
      then have "sublist t p \<or> sublist t new \<or>
          (\<exists>u1 u2. t = u1 @ u2 \<and> suffix u1 p \<and> prefix u2 new)"
        by (simp only: sublist_append)
      then consider "sublist t p" | "sublist t new"
        | u1 u2 where "t = u1 @ u2" "suffix u1 p" "prefix u2 new"
        by blast
      then show ?thesis
      proof cases
        case 1
        then show ?thesis by (auto simp: sublist_append)
      next
        case 2
        then have "set t \<subseteq> set new" by (rule set_mono_sublist)
        with hd_in "2.prems"(1) show ?thesis by auto
      next
        case u: 3
        show ?thesis
        proof (cases "u2 = []")
          case True
          with u have "suffix t p" by simp
          then show ?thesis by (auto simp: sublist_append)
        next
          case False
          with u(1) have "last t = last u2" by simp
          moreover from False have "last u2 \<in> set u2" by simp
          moreover from u(3) have "set u2 \<subseteq> set new" by (rule set_mono_prefix)
          ultimately show ?thesis using "2.prems"(2) by auto
        qed
      qed
    next
      case 2
      then have "sublist t ([] @ ?R)" by simp
      from "2.IH"(1) [OF True "2.prems"(1-4) this] have "sublist t ?d" by simp
      with suf have "sublist t (c # cs)"
        by (meson sublist_order.order_trans suffix_imp_sublist)
      then show ?thesis by (auto simp: sublist_append)
    next
      case s: 3
      from s(2) consider "suffix t1 new" | q where "t1 = q @ new"
        by (auto simp: suffix_append)
      then show ?thesis
      proof cases
        case 1
        show ?thesis
        proof (cases "t1 = []")
          case True
          with s have "sublist t ([] @ ?R)" by auto
          from "2.IH"(1) [OF \<open>old \<noteq> [] \<and> prefix old (c # cs)\<close> "2.prems"(1-4) this]
          have "sublist t ?d" by simp
          with suf have "sublist t (c # cs)"
            by (meson sublist_order.order_trans suffix_imp_sublist)
          then show ?thesis by (auto simp: sublist_append)
        next
          case False
          with s(1) have "hd t = hd t1" by simp
          moreover from False have "hd t1 \<in> set t1" by simp
          moreover from 1 have "set t1 \<subseteq> set new" by (rule set_mono_suffix)
          ultimately show ?thesis using "2.prems"(1) by auto
        qed
      next
        case 2
        with s(1) have "set new \<subseteq> set t" by auto
        with "2.prems"(3) show ?thesis by simp
      qed
    qed
  next
    case False
    with "2.prems"(5) have "sublist t ((p @ [c]) @ replace_from old new cs)" by auto
    from "2.IH"(2) [OF False "2.prems"(1-4) this] show ?thesis by simp
  qed
qed

section \<open>Placeholders and decimal literals\<close>

lemma str_nat_digits: "set (str_nat n) \<subseteq> {48..57}"
proof (induction n rule: str_nat.induct)
  case (1 n)
  show ?case
  proof (cases "n < 10")
    case True
    then show ?thesis by (subst str_nat.simps) auto
  next
    case False
    have "48 + n mod 10 \<in> {48..57::nat}" by auto
    with False 1 show ?thesis by (subst str_nat.simps) auto
  qed
qed

lemma token_chars:
  "set (token n) \<subseteq> {0x5F, 0x44, 0x45, 0x43, 0x49, 0x4D, 0x41, 0x4C} \<union> {48..57}"
  using str_nat_digits [of n] by (auto simp: token_def ustr_def)

lemma token_facts:
  "token n \<noteq> []" "hd (token n) = 0x5F" "last (token n) = 0x5F" "0x2E \<notin> set (token n)"
  "c \<in> set (token n) \<Longrightarrow> \<not> is_space c"
proof -
  show "token n \<noteq> []" "hd (token n) = 0x5F" "last (token n) = 0x5F"
    by (simp_all add: token_def ustr_def)
  show "0x2E \<notin> set (token n)" using token_chars [of n] by auto
  show "c \<in> set (token n) \<Longrightarrow> \<not> is_space c"
    using token_chars [of n] by (auto simp: is_space_def)
qed

lemma underscore_not_digit: "\<not> is_digit 0x5F"
  by (simp add: is_digit_low)

lemma match_decimal_value:
  assumes "match_decimal s = Some (m, rest)"
  shows "0x2E \<in> set m" and "0x5F \<notin> set m"
proof -
  from assms obtain r' where m: "m = takeWhile is_digit s @ [0x2E] @ takeWhile is_digit r'"
    by (auto simp: match_decimal_def Let_def split: if_splits list.splits)
  show "0x2E \<in> set m" using m by simp
  have "\<And>xs. 0x5F \<notin> set (takeWhile is_digit xs)"
    using underscore_not_digit by (metis set_takeWhileD)
  then show "0x5F \<notin> set m" using m by simp
qed

lemma well_formed_snoc:
  "well_formed ds \<Longrightarrow> 0x2E \<in> set m \<Longrightarrow> 0x5F \<notin> set m \<Longrightarrow>
   well_formed (ds @ [(token (length ds), m)])"
  by (auto simp: well_formed_def nth_append less_Suc_eq)

lemma protect_decimals_well_formed:
  "protect_decimals ds s = (out, ds') \<Longrightarrow> well_formed ds \<Longrightarrow>
   well_formed ds' \<and> length ds \<le> length ds'"
proof (induction ds s arbitrary: out ds' rule: protect_decimals.induct)
  case (1 decimals)
  then show ?case by simp
next
  case (2 decimals c cs)
  show ?case
  proof (cases "match_decimal (c # cs)")
    case None
    with "2.prems"(1) obtain o1 where "protect_decimals decimals cs = (o1, ds')"
      by (auto split: prod.splits)
    from "2.IH"(1) [OF None this "2.prems"(2)] show ?thesis .
  next
    case (Some mr)
    obtain m rest where mr: "mr = (m, rest)" by (cases mr)
    let ?ds = "decimals @ [(token (length decimals), m)]"
    from Some mr "2.prems"(1) obtain o1 where p: "protect_decimals ?ds rest = (o1, ds')"
      by (auto simp: Let_def split: prod.splits)
    from Some mr have "0x2E \<in> set m" "0x5F \<notin> set m"
      by (auto dest: match_decimal_value)
    with "2.prems"(2) have wf: "well_formed ?ds" by (simp add: well_formed_snoc)
    from "2.IH"(2) [OF Some mr [symmetric] refl p wf] show ?thesis by simp
  qed
qed

lemma restore_keeps_absent:
  assumes "\<forall>(t', v) \<in> set ds. t' \<noteq> [] \<and> 0x2E \<in> set v \<and> 0x5F \<notin> set v"
    and "t \<noteq> []" "hd t = 0x5F" "last t = 0x5F" "0x2E \<notin> set t" "\<not> sublist t s"
  shows "\<not> sublist t (restore_decimals ds s)"
  using assms
proof (induction ds arbitrary: s)
  case Nil
  then show ?case by simp
next
  case (Cons a ds)
  obtain t' v where a: "a = (t', v)" by (cases a)
  with Cons.prems(1) have v: "t' \<noteq> []" "0x2E \<in> set v" "0x5F \<notin> set v" by auto
  have "\<not> sublist t (replace_from t' v s)"
  proof
    assume "sublist t (replace_from t' v s)"
    then have "sublist t ([] @ replace_from t' v s)" by simp
    from sublist_through_replace [OF _ _ _ Cons.prems(2) this] v Cons.prems
    show False by auto
  qed
  with v(1) have "\<not> sublist t (str_replace t' v s)" by (simp add: str_replace_def)
  with Cons.IH [of "str_replace t' v s"] Cons.prems a show ?case by simp
qed

lemma restore_removes:
  assumes "\<forall>(t', v) \<in> set ds. t' \<noteq> [] \<and> 0x2E \<in> set v \<and> 0x5F \<notin> set v"
    and "(t, w) \<in> set ds" "hd t = 0x5F" "last t = 0x5F" "0x2E \<notin> set t"
  shows "\<not> sublist t (restore_decimals ds s)"
  using assms
proof (induction ds arbitrary: s)
  case Nil
  then show ?case by simp
next
  case (Cons a ds)
  obtain t' v where a: "a = (t', v)" by (cases a)
  with Cons.prems(1) have v: "t' \<noteq> []" "0x2E \<in> set v" "0x5F \<notin> set v" by auto
  from Cons.prems(1) have rest: "\<forall>(t', v) \<in> set ds. t' \<noteq> [] \<and> 0x2E \<in> set v \<and> 0x5F \<notin> set v"
    by simp
  from Cons.prems(1,2) have tne: "t \<noteq> []" by auto
  show ?case
  proof (cases "(t, w) \<in> set ds")
    case True
    from Cons.IH [OF rest True Cons.prems(3-5)] a show ?thesis by simp
  next
    case False
    with Cons.prems(2) a have eq: "t' = t" "v = w" by auto
    have "\<not> sublist t (replace_from t v s)"
      using replace_from_removes [of t v s] tne v Cons.prems(3-5) eq by auto
    with tne eq have "\<not> sublist t (str_replace t' v s)" by (simp add: str_replace_def)
    from restore_keeps_absent [OF rest tne Cons.prems(3-5) this] a show ?thesis by simp
  qed
qed

section \<open>Whitespace normalisation and occurrences\<close>

lemma prefix_collapse_spaces:
  "prefix t (collapse_spaces s) \<Longrightarrow> \<forall>c \<in> set t. \<not> is_space c \<Longrightarrow> prefix t s"
proof (induction s arbitrary: t rule: collapse_spaces.induct)
  case 1
  then show ?case by simp
next
  case (2 c cs)
  show ?case
  proof (cases t)
    case Nil
    then show ?thesis by simp
  next
    case (Cons d t')
    have sp: "is_space 0x20" by (simp add: is_space_def)
    show ?thesis
    proof (cases "is_space c")
      case True
      with "2.prems" Cons sp show ?thesis by auto
    next
      case False
      with "2.prems" Cons have "d = c" "prefix t' (collapse_spaces cs)" by auto
      moreover from "2.prems"(2) Cons have "\<forall>c \<in> set t'. \<not> is_space c" by simp
      ultimately show ?thesis using "2.IH"(2) [OF False] Cons by simp
    qed
  qed
qed

lemma sublist_collapse_spaces:
  "sublist t (collapse_spaces s) \<Longrightarrow> t \<noteq> [] \<Longrightarrow> \<forall>c \<in> set t. \<not> is_space c \<Longrightarrow> sublist t s"
proof (induction s rule: collapse_spaces.induct)
  case 1
  then show ?case by simp
next
  case (2 c cs)
  have sp: "is_space 0x20" by (simp add: is_space_def)
  show ?case
  proof (cases "is_space c")
    case True
    from "2.prems"(2,3) have "\<not> prefix t (0x20 # collapse_spaces (dropWhile is_space cs))"
      using sp by (cases t) auto
    with True "2.prems"(1) have "sublist t (collapse_spaces (dropWhile is_space cs))"
      by (simp add: sublist_Cons_right)
    from "2.IH"(1) [OF True this "2.prems"(2,3)] have "sublist t (dropWhile is_space cs)" .
    moreover have "suffix (dropWhile is_space cs) (c # cs)"
      by (simp add: suffix_dropWhile suffix_ConsI)
    ultimately show ?thesis by (meson sublist_order.order_trans suffix_imp_sublist)
  next
    case False
    with "2.prems"(1) consider "prefix t (c # collapse_spaces cs)" | "sublist t (collapse_spaces cs)"
      by (auto simp: sublist_Cons_right)
    then show ?thesis
    proof cases
      case 1
      then have "prefix t (collapse_spaces (c # cs))" using False by simp
      from prefix_collapse_spaces [OF this "2.prems"(3)] show ?thesis by auto
    next
      case 2
      from "2.IH"(2) [OF False this "2.prems"(2,3)] show ?thesis
        by (simp add: sublist_Cons_right)
    qed
  qed
qed

lemma sublist_strip: "sublist (strip s) s"
proof -
  have "suffix (dropWhile is_space (rev (dropWhile is_space s))) (rev (dropWhile is_space s))"
    by (rule suffix_dropWhile)
  then have "prefix (strip s) (dropWhile is_space s)"
    unfolding strip_def by (metis rev_rev_ident suffix_to_prefix)
  moreover have "suffix (dropWhile is_space s) s" by (rule suffix_dropWhile)
  ultimately show ?thesis
    by (meson prefix_imp_sublist sublist_order.order_trans suffix_imp_sublist)
qed

section \<open>The placeholders of a call\<close>

text \<open>
  What the restore loop achieves on every input: when \<open>n\<close> decimal literals were captured,
  no whole placeholder \<open>__DECIMAL_i__\<close> with \<open>i < n\<close> occurs in the returned text. This says
  nothing about the literals themselves, which a replacement can cut (see below).
\<close>

lemma generated_tokens_absent:
  assumes "protect_decimals [] (extract_text data) = (protected, decimals)"
    and "i < length decimals"
  shows "\<not> sublist (token i) (text (PunctuationNormalizer_apply data))"
proof
  let ?mid = "restore_decimals decimals
    (collapse_repeats (translate PUNCT_TRANSLATION protected))"
  assume occ: "sublist (token i) (text (PunctuationNormalizer_apply data))"
  have "well_formed []" by (simp add: well_formed_def)
  with assms(1) have wf: "well_formed decimals"
    by (auto dest: protect_decimals_well_formed)
  have all: "\<forall>(t', v) \<in> set decimals. t' \<noteq> [] \<and> 0x2E \<in> set v \<and> 0x5F \<notin> set v"
  proof (clarify, intro conjI)
    fix t' v
    assume "(t', v) \<in> set decimals"
    then obtain j where j: "j < length decimals" "decimals ! j = (t', v)"
      by (auto simp: in_set_conv_nth)
    with wf have "t' = token j" "0x2E \<in> set v" "0x5F \<notin> set v"
      by (auto simp: well_formed_def)
    then show "t' \<noteq> []" "0x2E \<in> set v" "0x5F \<notin> set v"
      by (simp_all add: token_facts)
  qed
  from wf assms(2) have "fst (decimals ! i) = token i" by (simp add: well_formed_def)
  with assms(2) have mem: "(token i, snd (decimals ! i)) \<in> set decimals"
    by (metis nth_mem prod.collapse)
  have absent: "\<not> sublist (token i) ?mid"
    by (rule restore_removes [OF all mem]) (simp_all add: token_facts)
  from occ assms(1) have "sublist (token i) (strip (collapse_spaces ?mid))"
    by (simp add: PunctuationNormalizer_apply_def Let_def)
  then have "sublist (token i) (collapse_spaces ?mid)"
    using sublist_strip sublist_order.order_trans by blast
  then have "sublist (token i) ?mid"
    by (rule sublist_collapse_spaces) (auto simp: token_facts)
  with absent show False by simp
qed

text \<open>
  C5 (a defect of the code). \<open>str.replace\<close> searches each placeholder in the whole text,
  also where characters of the input complete one. On \<open>0.5 1.5DECIMAL_0__\<close> two literals
  are captured and the protected text is \<open>__DECIMAL_0__ __DECIMAL_1__DECIMAL_0__\<close>; the
  replacement of \<open>__DECIMAL_0__\<close> also matches across the end of \<open>__DECIMAL_1__\<close>, so this
  placeholder is cut and never restored: the stage returns \<open>0.5 __DECIMAL_10.5\<close>, without the
  literal \<open>1.5\<close> and with the rest of its placeholder. On \<open>__DECIMAL_1__ 1.5\<close> the returned
  text contains the placeholder pattern \<open>__DECIMAL_1__\<close>. The source's comment on the loop is
  \<open>Restore protected decimals intact\<close>.
\<close>

theorem placeholder_collision:
  "protect_decimals [] (ustr ''0.5 1.5DECIMAL_0__'') =
     (ustr ''__DECIMAL_0__ __DECIMAL_1__DECIMAL_0__'',
      [(ustr ''__DECIMAL_0__'', ustr ''0.5''), (ustr ''__DECIMAL_1__'', ustr ''1.5'')]) \<and>
   text (PunctuationNormalizer_apply (RawText (ustr ''0.5 1.5DECIMAL_0__''))) =
     ustr ''0.5 __DECIMAL_10.5'' \<and>
   \<not> sublist (ustr ''1.5'')
     (text (PunctuationNormalizer_apply (RawText (ustr ''0.5 1.5DECIMAL_0__'')))) \<and>
   text (PunctuationNormalizer_apply (RawText (ustr ''__DECIMAL_1__ 1.5''))) =
     ustr ''__DECIMAL_1__ 1.5''"
proof -
  have a: "protect_decimals [] (ustr ''0.5 1.5DECIMAL_0__'') =
     (ustr ''__DECIMAL_0__ __DECIMAL_1__DECIMAL_0__'',
      [(ustr ''__DECIMAL_0__'', ustr ''0.5''), (ustr ''__DECIMAL_1__'', ustr ''1.5'')])"
    by (simp add: punct_eval)
  have b: "text (PunctuationNormalizer_apply (RawText (ustr ''0.5 1.5DECIMAL_0__''))) =
     ustr ''0.5 __DECIMAL_10.5''"
    by (simp add: punct_eval)
  have c: "\<not> sublist (ustr ''1.5'') (ustr ''0.5 __DECIMAL_10.5'')"
    by (simp add: ustr_def sublist_Cons_right)
  have d: "text (PunctuationNormalizer_apply (RawText (ustr ''__DECIMAL_1__ 1.5''))) =
     ustr ''__DECIMAL_1__ 1.5''"
    by (simp add: punct_eval)
  from a b c d show ?thesis by simp
qed

section \<open>Adjacent characters\<close>

lemma adjacent_Nil [simp]: "\<not> adjacent P Q []"
  by (simp add: adjacent_def)

lemma adjacent_single [simp]: "\<not> adjacent P Q [x]"
  by (auto simp: adjacent_def sublist_Cons_right)




section \<open>The ligature rules applied twice\<close>























section \<open>Marks, spaces and the translation table\<close>





lemma collapse_repeats_head:
  "\<not> is_punct x \<Longrightarrow> collapse_repeats (x # s) = x # collapse_repeats s"
  by simp










section \<open>The digits of a placeholder\<close>







section \<open>Occurrences of one placeholder inside another\<close>



section \<open>The restore loop on a protected text\<close>









section \<open>The protected text as pieces and placeholders\<close>






section \<open>Translation and collapsing leave the placeholders alone\<close>

















section \<open>Decimal literals\<close>





section \<open>Runs of marks and table keys in a protected text\<close>






section \<open>Whitespace normalisation applied twice\<close>



section \<open>The punctuation stage applied twice\<close>





section \<open>The stages applied twice\<close>







end
